theory Spec2Isabelle
  imports Complex_Main
begin

section \<open>Game records and streak details\<close>

text \<open>
  A row of the per-player dataframe that \<^verbatim>\<open>calculate_streaks_and_details\<close> walks over.
  Only the four columns the scanner reads are kept. The \<^verbatim>\<open>Winner\<close> column holds the
  winner's name, the literal \<^verbatim>\<open>Draw\<close>, or anything else (another name, a missing value);
  the scanner only ever compares it for equality.
\<close>

record row =
  ID :: int
  Winner :: string
  Opponent_ELO :: int
  ELO_Difference_In_Terms_of_Player :: int

text \<open>
  One entry of the detail table, the dictionary with the keys \<^verbatim>\<open>ID\<close>,
  \<^verbatim>\<open>Opponent_ELO\<close> and \<^verbatim>\<open>ELO_Difference\<close>.
\<close>

record detail =
  detail_ID :: int
  detail_Opponent_ELO :: int
  detail_ELO_Difference :: int

text \<open>
  The Python exceptions the modelled code can raise: \<^verbatim>\<open>None + 1\<close> (TypeError),
  \<^verbatim>\<open>.values[0]\<close> on an empty selection (IndexError), and \<^verbatim>\<open>np.arange\<close> on an
  undefined bound (ValueError).
\<close>

datatype error = TypeError | IndexError | ValueError

section \<open>The streak scanner\<close>

text \<open>
  The local variables of \<^verbatim>\<open>calculate_streaks_and_details\<close>. Streak lengths are Python
  numbers built from \<^verbatim>\<open>0\<close>, \<^verbatim>\<open>1\<close> and \<^verbatim>\<open>0.5\<close> by addition only, so every value is
  a multiple of one half, which binary floating point represents exactly; they are
  modelled as rationals.
\<close>

record scan_state =
  streaks :: "rat list"
  details :: "detail list"
  current_streak :: rat
  streak_start_id :: "int option"
  streak_details :: "detail list"
  last_id :: "int option"
  pending_draw :: rat

definition initial_state :: scan_state where
  "initial_state =
     \<lparr>streaks = [], details = [], current_streak = 0, streak_start_id = None,
      streak_details = [], last_id = None, pending_draw = 0\<rparr>"

text \<open>The entry built from the row at hand (new streak, and draw inside a streak).\<close>

definition row_detail :: "row \<Rightarrow> detail" where
  "row_detail r =
     \<lparr>detail_ID = ID r, detail_Opponent_ELO = Opponent_ELO r,
      detail_ELO_Difference = ELO_Difference_In_Terms_of_Player r\<rparr>"

text \<open>
  \<^verbatim>\<open>df.loc[df['ID'] == id, col].values[0]\<close>: the column value of the first row with
  that id, IndexError when no row has it.
\<close>

definition loc_values0 :: "row list \<Rightarrow> int \<Rightarrow> (row \<Rightarrow> int) \<Rightarrow> error + int" where
  "loc_values0 df i col =
     (case filter (\<lambda>r. ID r = i) df of [] \<Rightarrow> Inl IndexError | r # _ \<Rightarrow> Inr (col r))"

text \<open>The list comprehension of the continuation branch, over the ids of a range.\<close>

fun range_details :: "row list \<Rightarrow> int list \<Rightarrow> error + detail list" where
  "range_details df [] = Inr []"
| "range_details df (i # ids) =
     (case loc_values0 df i Opponent_ELO of
        Inl e \<Rightarrow> Inl e
      | Inr oe \<Rightarrow>
          (case loc_values0 df i ELO_Difference_In_Terms_of_Player of
             Inl e \<Rightarrow> Inl e
           | Inr ed \<Rightarrow>
               (case range_details df ids of
                  Inl e \<Rightarrow> Inl e
                | Inr ds \<Rightarrow>
                    Inr (\<lparr>detail_ID = i, detail_Opponent_ELO = oe,
                          detail_ELO_Difference = ed\<rparr> # ds))))"

text \<open>\<^verbatim>\<open>range(last_id + 1, current_id + 1)\<close>.\<close>

definition continuation_ids :: "int \<Rightarrow> int \<Rightarrow> int list" where
  "continuation_ids l current_id = [l + 1 .. current_id]"

text \<open>\<^verbatim>\<open>is_sequential = (last_id is None) or (current_id == last_id + 1)\<close>.\<close>

definition is_sequential :: "int option \<Rightarrow> int \<Rightarrow> bool" where
  "is_sequential l current_id = (case l of None \<Rightarrow> True | Some k \<Rightarrow> current_id = k + 1)"

text \<open>
  The block \<^verbatim>\<open>if current_streak > 1: streaks.append(...); details.extend(...)\<close>, which
  the source writes out three times: before a new streak is opened, when a streak ends,
  and after the loop.
\<close>

definition emit_streak :: "scan_state \<Rightarrow> scan_state" where
  "emit_streak st =
     (if current_streak st > 1
      then st\<lparr>streaks := streaks st @ [current_streak st],
              details := details st @ streak_details st\<rparr>
      else st)"

text \<open>One iteration of the loop, the final \<^verbatim>\<open>last_id = current_id\<close> included.\<close>

definition step :: "row list \<Rightarrow> string \<Rightarrow> scan_state \<Rightarrow> row \<Rightarrow> error + scan_state" where
  "step df player_name st r =
     (let current_id = ID r; winner = Winner r;
          sequential = is_sequential (last_id st) current_id
      in
        if winner = player_name then
          if streak_start_id st = None \<or> \<not> sequential then
            Inr ((emit_streak st)
                   \<lparr>current_streak := 1, streak_start_id := Some current_id,
                    streak_details := [row_detail r], pending_draw := 0,
                    last_id := Some current_id\<rparr>)
          else
            (case last_id st of
               None \<Rightarrow> Inl TypeError
             | Some l \<Rightarrow>
                 (case range_details df (continuation_ids l current_id) of
                    Inl e \<Rightarrow> Inl e
                  | Inr ds \<Rightarrow>
                      Inr (st\<lparr>current_streak := current_streak st + (1 + pending_draw st),
                              streak_details := streak_details st @ ds,
                              pending_draw := 0, last_id := Some current_id\<rparr>)))
        else if winner = ''Draw'' \<and> sequential then
          if streak_start_id st \<noteq> None then
            Inr (st\<lparr>pending_draw := 1 / 2,
                    streak_details := streak_details st @ [row_detail r],
                    last_id := Some current_id\<rparr>)
          else
            Inr (st\<lparr>pending_draw := 0, last_id := Some current_id\<rparr>)
        else
          Inr ((emit_streak st)
                 \<lparr>current_streak := 0, streak_start_id := None, streak_details := [],
                  pending_draw := 0, last_id := Some current_id\<rparr>))"

text \<open>The loop over \<^verbatim>\<open>df.iterrows()\<close>; an exception leaves it at once.\<close>

fun scan_rows :: "row list \<Rightarrow> string \<Rightarrow> row list \<Rightarrow> scan_state \<Rightarrow> error + scan_state" where
  "scan_rows df player_name [] st = Inr st"
| "scan_rows df player_name (r # rs) st =
     (case step df player_name st r of
        Inl e \<Rightarrow> Inl e
      | Inr st' \<Rightarrow> scan_rows df player_name rs st')"

definition calculate_streaks_and_details ::
    "row list \<Rightarrow> string \<Rightarrow> error + (rat list \<times> detail list)" where
  "calculate_streaks_and_details df player_name =
     (case scan_rows df player_name df initial_state of
        Inl e \<Rightarrow> Inl e
      | Inr st \<Rightarrow> Inr (streaks (emit_streak st), details (emit_streak st)))"

section \<open>The streak aggregator\<close>

text \<open>
  \<^verbatim>\<open>create_combined_frequencies_dataframe\<close> reads one column of streak lengths from a
  file; the model takes the column. Three library calls are modelled by what they
  return: \<^verbatim>\<open>Series.max()\<close> is the largest entry, and the undefined value NaN (here
  \<open>None\<close>) for an empty column; NaN plus a number is NaN; \<^verbatim>\<open>np.arange(start, stop, step)\<close>
  holds the \<open>\<lceil>(stop - start) / step\<rceil>\<close> values \<open>start + i * step\<close>, and raises
  ValueError when that count cannot be computed because a bound is NaN. The library also
  refuses a grid too large for an array; the model has no such limit, so it stands for
  \<^verbatim>\<open>np.arange\<close> on an undefined bound and on bounds whose grid can be held, and says
  nothing of larger ones.
\<close>

definition series_max :: "rat list \<Rightarrow> rat option" where
  "series_max xs = (case xs of [] \<Rightarrow> None | y # ys \<Rightarrow> Some (fold max ys y))"

definition nan_add :: "rat option \<Rightarrow> rat \<Rightarrow> rat option" where
  "nan_add x y = (case x of None \<Rightarrow> None | Some v \<Rightarrow> Some (v + y))"

definition arange :: "rat \<Rightarrow> rat option \<Rightarrow> rat \<Rightarrow> error + rat list" where
  "arange start stop stp =
     (case stop of
        None \<Rightarrow> Inl ValueError
      | Some s \<Rightarrow>
          Inr (map (\<lambda>i. start + rat_of_nat i * stp) [0 ..< nat \<lceil>(s - start) / stp\<rceil>]))"

text \<open>The rows \<open>(Xi, Fi)\<close> of the resulting frequency table.\<close>

definition create_combined_frequencies_dataframe :: "rat list \<Rightarrow> error + (rat \<times> nat) list" where
  "create_combined_frequencies_dataframe data =
     (let max_value = series_max data in
        case arange 2 (nan_add max_value (1 / 2)) (1 / 2) of
          Inl e \<Rightarrow> Inl e
        | Inr xi_values \<Rightarrow>
            Inr (zip xi_values
                   (map (\<lambda>xi. length (filter (\<lambda>s. s = xi) data)) xi_values)))"

section \<open>Invariants of the scan\<close>

text \<open>
  The lengths the scanner can emit: the multiples of one half from 2 on. An open streak
  has length 1 after its first win and grows by 1 or by 1.5 with every further win.
\<close>

definition emitted_length :: "rat \<Rightarrow> bool" where
  "emitted_length x = (\<exists>k::nat. 4 \<le> k \<and> x = rat_of_nat k / 2)"

text \<open>
  What holds of the lengths in every state the loop reaches: the pending weight is 0 or
  0.5, the current length is 0 with no streak open, or 1, or a length that can be
  emitted, and so is every length already emitted.
\<close>

definition length_inv :: "scan_state \<Rightarrow> bool" where
  "length_inv st =
     ((pending_draw st = 0 \<or> pending_draw st = 1 / 2)
      \<and> (current_streak st = 0 \<and> streak_start_id st = None
           \<or> current_streak st = 1 \<or> emitted_length (current_streak st))
      \<and> (\<forall>x \<in> set (streaks st). emitted_length x))"

text \<open>
  What holds of the detail entries when the ids of the rows increase strictly: the ids of
  the entries emitted so far, followed by those of the open streak, increase strictly and
  none exceeds the id of the row visited last.
\<close>

definition details_inv :: "scan_state \<Rightarrow> bool" where
  "details_inv st =
     (sorted_wrt (<) (map detail_ID (details st @ streak_details st))
      \<and> (\<forall>d \<in> set (details st @ streak_details st).
            \<exists>l. last_id st = Some l \<and> detail_ID d \<le> l))"


section \<open>Test records\<close>

text \<open>
  A record of the tracked player \<^verbatim>\<open>P\<close> with the given id and outcome marker; the two
  rating columns are derived from the id so that entries of different games differ.
\<close>

definition game :: "int \<Rightarrow> string \<Rightarrow> row" where
  "game i w =
     \<lparr>ID = i, Winner = w, Opponent_ELO = 1500 + i,
      ELO_Difference_In_Terms_of_Player = 10 * i\<rparr>"

definition entry :: "int \<Rightarrow> detail" where
  "entry i = \<lparr>detail_ID = i, detail_Opponent_ELO = 1500 + i, detail_ELO_Difference = 10 * i\<rparr>"

lemmas scan_simps =
  calculate_streaks_and_details_def initial_state_def step_def emit_streak_def
  is_sequential_def continuation_ids_def loc_values0_def row_detail_def game_def entry_def
  upto.simps Let_def

section \<open>Lengths: what the scanner can emit\<close>

lemma emitted_length_gt1: "emitted_length x \<Longrightarrow> 1 < x"
  by (auto simp: emitted_length_def)

lemma emitted_length_two: "emitted_length 2"
  unfolding emitted_length_def by (rule exI [of _ 4]) simp

lemma emitted_length_five_halves: "emitted_length (5 / 2)"
  unfolding emitted_length_def by (rule exI [of _ 5]) simp

lemma emitted_length_add_one: "emitted_length x \<Longrightarrow> emitted_length (x + 1)"
  unfolding emitted_length_def
proof (elim exE conjE)
  fix k :: nat assume "4 \<le> k" "x = rat_of_nat k / 2"
  then have "4 \<le> k + 2 \<and> x + 1 = rat_of_nat (k + 2) / 2" by simp
  then show "\<exists>k::nat. 4 \<le> k \<and> x + 1 = rat_of_nat k / 2" by blast
qed

lemma emitted_length_add_three_halves: "emitted_length x \<Longrightarrow> emitted_length (x + 3 / 2)"
  unfolding emitted_length_def
proof (elim exE conjE)
  fix k :: nat assume "4 \<le> k" "x = rat_of_nat k / 2"
  then have "4 \<le> k + 3 \<and> x + 3 / 2 = rat_of_nat (k + 3) / 2" by (simp add: field_simps)
  then show "\<exists>k::nat. 4 \<le> k \<and> x + 3 / 2 = rat_of_nat k / 2" by blast
qed

lemma length_inv_initial: "length_inv initial_state"
  by (simp add: length_inv_def initial_state_def)

lemma length_inv_emit: "length_inv st \<Longrightarrow> length_inv (emit_streak st)"
  by (auto simp: length_inv_def emit_streak_def)

lemma emit_streak_fields [simp]:
  "current_streak (emit_streak st) = current_streak st"
  "streak_start_id (emit_streak st) = streak_start_id st"
  "streak_details (emit_streak st) = streak_details st"
  "last_id (emit_streak st) = last_id st"
  "pending_draw (emit_streak st) = pending_draw st"
  by (simp_all add: emit_streak_def)

lemma length_inv_open:
  "length_inv st \<Longrightarrow>
   length_inv ((emit_streak st)\<lparr>current_streak := 1, streak_start_id := Some i,
      streak_details := ds, pending_draw := 0, last_id := l\<rparr>)"
  using length_inv_emit [of st] by (simp add: length_inv_def)

lemma length_inv_close:
  "length_inv st \<Longrightarrow>
   length_inv ((emit_streak st)\<lparr>current_streak := 0, streak_start_id := None,
      streak_details := ds, pending_draw := 0, last_id := l\<rparr>)"
  using length_inv_emit [of st] by (simp add: length_inv_def)

lemma length_inv_continue:
  assumes "length_inv st" "streak_start_id st \<noteq> None"
  shows "length_inv (st\<lparr>current_streak := current_streak st + (1 + pending_draw st),
      streak_details := ds, pending_draw := 0, last_id := l\<rparr>)"
proof -
  from assms have cs: "current_streak st = 1 \<or> emitted_length (current_streak st)"
    and pd: "pending_draw st = 0 \<or> pending_draw st = 1 / 2"
    and ss: "\<forall>x \<in> set (streaks st). emitted_length x"
    by (auto simp: length_inv_def)
  have "emitted_length (current_streak st + (1 + pending_draw st))"
  proof -
    consider "current_streak st = 1" "pending_draw st = 0"
      | "current_streak st = 1" "pending_draw st = 1 / 2"
      | "emitted_length (current_streak st)" "pending_draw st = 0"
      | "emitted_length (current_streak st)" "pending_draw st = 1 / 2"
      using cs pd by blast
    then show ?thesis
    proof cases
      case 1
      have "current_streak st + (1 + pending_draw st) = 2" unfolding 1 by simp
      then show ?thesis by (simp only: emitted_length_two)
    next
      case 2
      have "current_streak st + (1 + pending_draw st) = 5 / 2" unfolding 2 by simp
      then show ?thesis by (simp only: emitted_length_five_halves)
    next
      case 3
      have "current_streak st + (1 + pending_draw st) = current_streak st + 1"
        unfolding 3(2) by simp
      then show ?thesis by (simp only: emitted_length_add_one [OF 3(1)])
    next
      case 4
      have "current_streak st + (1 + pending_draw st) = current_streak st + 3 / 2"
        unfolding 4(2) by simp
      then show ?thesis by (simp only: emitted_length_add_three_halves [OF 4(1)])
    qed
  qed
  with ss show ?thesis by (simp add: length_inv_def)
qed

lemma length_inv_draw:
  "length_inv st \<Longrightarrow> p = 0 \<or> p = 1 / 2 \<Longrightarrow>
   length_inv (st\<lparr>pending_draw := p, streak_details := ds, last_id := l\<rparr>)"
   "length_inv st \<Longrightarrow> p = 0 \<or> p = 1 / 2 \<Longrightarrow>
   length_inv (st\<lparr>pending_draw := p, last_id := l\<rparr>)"
  by (auto simp: length_inv_def)

lemma length_inv_step:
  assumes "length_inv st" "step df p st r = Inr st'"
  shows "length_inv st'"
  using assms(2) length_inv_open [OF assms(1)] length_inv_close [OF assms(1)]
    length_inv_continue [OF assms(1)] length_inv_draw [OF assms(1)]
  by (auto simp: step_def Let_def split: if_splits option.splits sum.splits)

lemma length_inv_scan_rows:
  "length_inv st \<Longrightarrow> scan_rows df p rows st = Inr st' \<Longrightarrow> length_inv st'"
proof (induction rows arbitrary: st)
  case Nil
  then show ?case by simp
next
  case (Cons r rows)
  then show ?case by (auto split: sum.splits dest: length_inv_step)
qed

lemma emitted_lengths_of_scan:
  assumes "calculate_streaks_and_details df p = Inr (ss, ds)"
  shows "\<forall>x \<in> set ss. emitted_length x"
proof -
  from assms obtain st where st: "scan_rows df p df initial_state = Inr st"
    and ss: "ss = streaks (emit_streak st)"
    by (auto simp: calculate_streaks_and_details_def split: sum.splits)
  have "length_inv (emit_streak st)"
    using length_inv_scan_rows [OF length_inv_initial st] by (rule length_inv_emit)
  then show ?thesis by (simp add: length_inv_def ss)
qed

section \<open>The grid of the aggregator\<close>

lemma series_max_nonempty:
  assumes "xs \<noteq> []"
  shows "series_max xs = Some (Max (set xs))"
proof (cases xs)
  case Nil
  with assms show ?thesis by simp
next
  case (Cons y ys)
  have "fold max ys y = Max (set (y # ys))" by (rule Max.set_eq_fold [symmetric])
  then show ?thesis unfolding Cons by (simp add: series_max_def)
qed

lemma arange_half_grid:
  fixes k :: nat
  assumes "4 \<le> k"
  shows "arange 2 (Some (rat_of_nat k / 2 + 1 / 2)) (1 / 2)
           = Inr (map (\<lambda>i. 2 + rat_of_nat i / 2) [0 ..< k - 3])"
proof -
  have "(rat_of_nat k / 2 + 1 / 2 - 2) / (1 / 2) = rat_of_int (int k - 3)"
    by (simp add: field_simps)
  then have "nat \<lceil>(rat_of_nat k / 2 + 1 / 2 - 2) / (1 / 2)\<rceil> = k - 3"
    by (simp only: ceiling_of_int)
  then show ?thesis
    by (simp add: arange_def)
qed

lemma zip_map_fst_snd:
  "map fst (zip xs (map f xs)) = xs" "map snd (zip xs (map f xs)) = map f xs"
  by (induction xs) simp_all

lemma length_filter_eq_count_list: "length (filter (\<lambda>s. s = x) xs) = count_list xs x"
  by (induction xs) simp_all

lemma frequencies_of_emitted_lengths:
  assumes ne: "xs \<noteq> []" and em: "\<forall>x \<in> set xs. emitted_length x"
  shows "\<exists>n tbl. create_combined_frequencies_dataframe xs = Inr tbl \<and> 1 \<le> n
           \<and> map fst tbl = map (\<lambda>i. 2 + rat_of_nat i / 2) [0 ..< n]
           \<and> 2 + rat_of_nat (n - 1) / 2 = Max (set xs)
           \<and> map snd tbl = map (count_list xs) (map fst tbl)"
proof -
  have "Max (set xs) \<in> set xs" using ne by (intro Max_in) simp_all
  with em obtain k :: nat where k: "4 \<le> k" "Max (set xs) = rat_of_nat k / 2"
    by (auto simp: emitted_length_def)
  let ?grid = "map (\<lambda>i. 2 + rat_of_nat i / 2) [0 ..< k - 3]"
  let ?tbl = "zip ?grid (map (\<lambda>xi. length (filter (\<lambda>s. s = xi) xs)) ?grid)"
  have run: "create_combined_frequencies_dataframe xs = Inr ?tbl"
    by (simp add: create_combined_frequencies_dataframe_def series_max_nonempty [OF ne]
        nan_add_def k(2) arange_half_grid [OF k(1)] del: map_map)
  have last: "2 + rat_of_nat (k - 3 - 1) / 2 = Max (set xs)"
    using k by (simp add: k(2) of_nat_diff field_simps)
  have fst: "map fst ?tbl = ?grid" by (rule zip_map_fst_snd)
  have snd: "map snd ?tbl = map (count_list xs) (map fst ?tbl)"
    unfolding fst by (simp only: zip_map_fst_snd length_filter_eq_count_list)
  have "1 \<le> k - 3" using k(1) by simp
  with run last fst snd show ?thesis by blast
qed

section \<open>Steps of the scanner\<close>

lemma scan_rows_append:
  "scan_rows df p (xs @ ys) st =
     (case scan_rows df p xs st of Inl e \<Rightarrow> Inl e | Inr st' \<Rightarrow> scan_rows df p ys st')"
  by (induction xs arbitrary: st) (auto split: sum.splits)

lemma continuation_ids_sequential:
  "is_sequential (Some l) i \<Longrightarrow> continuation_ids l i = [i]"
  by (simp add: is_sequential_def continuation_ids_def)

lemma range_details_ids: "range_details df ids = Inr ds \<Longrightarrow> map detail_ID ds = ids"
  by (induction ids arbitrary: ds) (auto split: sum.splits)

lemma loc_values0_member:
  "r \<in> set df \<Longrightarrow> \<exists>v. loc_values0 df (ID r) col = Inr v"
proof -
  assume "r \<in> set df"
  then have "r \<in> set (filter (\<lambda>x. ID x = ID r) df)" by simp
  then have "filter (\<lambda>x. ID x = ID r) df \<noteq> []" by fastforce
  then show ?thesis by (auto simp: loc_values0_def split: list.splits)
qed

lemma range_details_member:
  assumes "r \<in> set df"
  shows "\<exists>d. range_details df [ID r] = Inr [d]"
  using loc_values0_member [OF assms, of Opponent_ELO]
    loc_values0_member [OF assms, of ELO_Difference_In_Terms_of_Player]
  by auto

lemma step_draw:
  assumes "streak_start_id st \<noteq> None" "last_id st = Some l" "Winner d = ''Draw''"
    "p \<noteq> ''Draw''" "ID d = l + 1"
  shows "step df p st d =
           Inr (st\<lparr>pending_draw := 1 / 2,
                   streak_details := streak_details st @ [row_detail d],
                   last_id := Some (ID d)\<rparr>)"
  using assms by (auto simp: step_def Let_def is_sequential_def)

lemma step_win_continue:
  assumes "streak_start_id st \<noteq> None" "last_id st = Some l" "Winner w = p"
    "is_sequential (last_id st) (ID w)"
  shows "step df p st w =
           (case range_details df (continuation_ids l (ID w)) of
              Inl e \<Rightarrow> Inl e
            | Inr ds \<Rightarrow>
                Inr (st\<lparr>current_streak := current_streak st + (1 + pending_draw st),
                        streak_details := streak_details st @ ds,
                        pending_draw := 0, last_id := Some (ID w)\<rparr>))"
  using assms by (auto simp: step_def Let_def)

lemma scan_draws:
  assumes "streak_start_id st \<noteq> None" "last_id st = Some l" "p \<noteq> ''Draw''"
    "map Winner draws = replicate (length draws) ''Draw''"
    "map ID draws = [l + 1 .. l + int (length draws)]"
  shows "\<exists>st1. scan_rows df p draws st = Inr st1
           \<and> current_streak st1 = current_streak st
           \<and> pending_draw st1 = (if draws = [] then pending_draw st else 1 / 2)
           \<and> streak_start_id st1 = streak_start_id st
           \<and> last_id st1 = Some (l + int (length draws))"
  using assms
proof (induction draws arbitrary: st l)
  case Nil
  then show ?case by simp
next
  case (Cons d draws)
  have range: "[l + 1 .. l + int (length (d # draws))]
                 = (l + 1) # [l + 1 + 1 .. l + 1 + int (length draws)]"
    by (subst upto_rec1) (simp_all add: algebra_simps)
  from Cons.prems(4) have wd: "Winner d = ''Draw''"
    and ws: "map Winner draws = replicate (length draws) ''Draw''" by simp_all
  from Cons.prems(5) range have idd: "ID d = l + 1"
    and ids: "map ID draws = [l + 1 + 1 .. l + 1 + int (length draws)]" by simp_all
  let ?st = "st\<lparr>pending_draw := 1 / 2,
                 streak_details := streak_details st @ [row_detail d],
                 last_id := Some (ID d)\<rparr>"
  have st: "step df p st d = Inr ?st"
    by (rule step_draw [OF Cons.prems(1,2) wd Cons.prems(3) idd])
  have "\<exists>st1. scan_rows df p draws ?st = Inr st1
           \<and> current_streak st1 = current_streak ?st
           \<and> pending_draw st1 = (if draws = [] then pending_draw ?st else 1 / 2)
           \<and> streak_start_id st1 = streak_start_id ?st
           \<and> last_id st1 = Some (l + 1 + int (length draws))"
    by (rule Cons.IH) (use Cons.prems(1,3) ws ids idd in simp_all)
  then show ?case by (auto simp: st algebra_simps)
qed

lemma draws_then_win:
  assumes op: "streak_start_id st \<noteq> None" and last: "last_id st = Some l"
    and p: "p \<noteq> ''Draw''" and ne: "draws \<noteq> []"
    and ws: "map Winner draws = replicate (length draws) ''Draw''"
    and ids: "map ID draws = [l + 1 .. l + int (length draws)]"
    and w: "Winner w = p" "ID w = l + int (length draws) + 1" "w \<in> set df"
  shows "\<exists>st1 st2. scan_rows df p draws st = Inr st1
           \<and> current_streak st1 = current_streak st \<and> pending_draw st1 = 1 / 2
           \<and> scan_rows df p (draws @ [w]) st = Inr st2
           \<and> current_streak st2 = current_streak st + (1 + 1 / 2)
           \<and> pending_draw st2 = 0"
proof -
  from scan_draws [OF op last p ws ids, of df] ne obtain st1 where
    st1: "scan_rows df p draws st = Inr st1" "current_streak st1 = current_streak st"
      "pending_draw st1 = 1 / 2" "streak_start_id st1 = streak_start_id st"
      "last_id st1 = Some (l + int (length draws))"
    by auto
  have seq: "is_sequential (last_id st1) (ID w)"
    by (simp add: st1(5) w(2) is_sequential_def)
  from range_details_member [OF w(3)] obtain d where
    d: "range_details df [ID w] = Inr [d]" by blast
  have rng: "continuation_ids (l + int (length draws)) (ID w) = [ID w]"
    using seq unfolding st1(5) by (rule continuation_ids_sequential)
  have op1: "streak_start_id st1 \<noteq> None" using op by (simp add: st1(4))
  have "step df p st1 w =
          Inr (st1\<lparr>current_streak := current_streak st1 + (1 + pending_draw st1),
                   streak_details := streak_details st1 @ [d],
                   pending_draw := 0, last_id := Some (ID w)\<rparr>)"
    unfolding step_win_continue [OF op1 st1(5) w(1) seq] rng d by (simp only: sum.case)
  then have "\<exists>st2. scan_rows df p (draws @ [w]) st = Inr st2
      \<and> current_streak st2 = current_streak st + (1 + 1 / 2) \<and> pending_draw st2 = 0"
    by (simp add: scan_rows_append st1)
  with st1 show ?thesis by blast
qed

lemma step_win_open:
  assumes "Winner r = p" "streak_start_id st \<noteq> None" "last_id st = Some l"
  shows "step df p st r =
      (if ID r = l + 1 then
         (case range_details df (continuation_ids l (ID r)) of
            Inl e \<Rightarrow> Inl e
          | Inr ds \<Rightarrow>
              Inr (st\<lparr>current_streak := current_streak st + (1 + pending_draw st),
                      streak_details := streak_details st @ ds,
                      pending_draw := 0, last_id := Some (ID r)\<rparr>))
       else
         Inr ((emit_streak st)
                \<lparr>current_streak := 1, streak_start_id := Some (ID r),
                 streak_details := [row_detail r], pending_draw := 0,
                 last_id := Some (ID r)\<rparr>))"
  using assms by (auto simp: step_def Let_def is_sequential_def)

lemma range_details_single:
  "(case range_details df [i] of
      Inl e \<Rightarrow> e = IndexError \<and> filter (\<lambda>x. ID x = i) df = []
    | Inr ds \<Rightarrow>
        (\<exists>x rest. filter (\<lambda>x. ID x = i) df = x # rest
           \<and> ds = [\<lparr>detail_ID = i, detail_Opponent_ELO = Opponent_ELO x,
                     detail_ELO_Difference = ELO_Difference_In_Terms_of_Player x\<rparr>]))"
  by (cases "filter (\<lambda>x. ID x = i) df") (simp_all add: loc_values0_def)

lemma step_appends_current_id:
  assumes st: "step df p st r = Inr st'"
    and app: "streak_details st' = streak_details st @ ds"
  shows "(\<forall>d \<in> set ds. detail_ID d = ID r) \<and> length ds \<le> 1"
proof (cases "Winner r = p")
  case True
  show ?thesis
  proof (cases "streak_start_id st = None \<or> \<not> is_sequential (last_id st) (ID r)")
    case new: True
    with True st have "streak_details st' = [row_detail r]"
      by (auto simp: step_def Let_def)
    with app have "streak_details st @ ds = [row_detail r]" by simp
    then have "ds = [] \<or> ds = [row_detail r]"
      by (cases "streak_details st") auto
    then show ?thesis by (auto simp: row_detail_def)
  next
    case cont: False
    then obtain l where l: "last_id st = Some l" "is_sequential (Some l) (ID r)"
      using True st by (cases "last_id st") (auto simp: step_def Let_def)
    have rng: "continuation_ids l (ID r) = [ID r]"
      by (rule continuation_ids_sequential [OF l(2)])
    from cont True st l obtain es where es: "range_details df [ID r] = Inr es"
      and st': "streak_details st' = streak_details st @ es"
      by (auto simp: step_def Let_def rng split: sum.splits simp del: range_details.simps)
    from st' app have "ds = es" by simp
    with range_details_ids [OF es] have "map detail_ID ds = [ID r]" by simp
    then show ?thesis by (cases ds) auto
  qed
next
  case False
  show ?thesis
  proof (cases "Winner r = ''Draw'' \<and> is_sequential (last_id st) (ID r)")
    case draw: True
    show ?thesis
    proof (cases "streak_start_id st = None")
      case True
      with False draw st have "streak_details st' = streak_details st"
        by (auto simp: step_def Let_def)
      with app have "ds = []" by simp
      then show ?thesis by simp
    next
      case opened: False
      with False draw st have "streak_details st' = streak_details st @ [row_detail r]"
        by (auto simp: step_def Let_def)
      with app have "ds = [row_detail r]" by simp
      then show ?thesis by (simp add: row_detail_def)
    qed
  next
    case other: False
    with False st have "streak_details st' = []"
      by (auto simp: step_def Let_def)
    with app have "ds = []" by simp
    then show ?thesis by simp
  qed
qed

section \<open>Order of the detail entries\<close>

lemma details_inv_initial: "details_inv initial_state"
  by (simp add: details_inv_def initial_state_def)

lemma details_inv_emit_details:
  assumes "details_inv st"
  shows "sorted_wrt (<) (map detail_ID (details (emit_streak st)))"
    and "\<forall>d \<in> set (details (emit_streak st)). \<exists>l. last_id st = Some l \<and> detail_ID d \<le> l"
  using assms by (auto simp: details_inv_def emit_streak_def sorted_wrt_append)

lemma details_inv_open:
  assumes inv: "details_inv st" and lt: "\<forall>l. last_id st = Some l \<longrightarrow> l < i"
  shows "details_inv ((emit_streak st)\<lparr>current_streak := c, streak_start_id := s,
      streak_details := [\<lparr>detail_ID = i, detail_Opponent_ELO = oe,
        detail_ELO_Difference = ed\<rparr>], pending_draw := pd, last_id := Some i\<rparr>)"
proof -
  note e = details_inv_emit_details [OF inv]
  have "\<forall>d \<in> set (details (emit_streak st)). detail_ID d < i"
    using e(2) lt by fastforce
  then show ?thesis
    using e(1) by (auto simp: details_inv_def sorted_wrt_append dest: less_imp_le)
qed

lemma details_inv_close:
  assumes inv: "details_inv st" and lt: "\<forall>l. last_id st = Some l \<longrightarrow> l < i"
  shows "details_inv ((emit_streak st)\<lparr>current_streak := c, streak_start_id := s,
      streak_details := [], pending_draw := pd, last_id := Some i\<rparr>)"
proof -
  note e = details_inv_emit_details [OF inv]
  have "\<forall>d \<in> set (details (emit_streak st)). detail_ID d < i"
    using e(2) lt by fastforce
  then show ?thesis
    using e(1) by (auto simp: details_inv_def dest: less_imp_le)
qed

lemma details_inv_append:
  assumes inv: "details_inv st" and lt: "\<forall>l. last_id st = Some l \<longrightarrow> l < i"
    and d: "detail_ID d = i"
  shows "details_inv (st\<lparr>streak_details := streak_details st @ [d], last_id := Some i\<rparr>)"
proof -
  have "\<forall>x \<in> set (details st @ streak_details st). detail_ID x < i"
    using inv lt unfolding details_inv_def by fastforce
  then show ?thesis
    using inv d by (auto simp: details_inv_def sorted_wrt_append dest: less_imp_le)
qed

lemma details_inv_skip:
  assumes inv: "details_inv st" and lt: "\<forall>l. last_id st = Some l \<longrightarrow> l < i"
  shows "details_inv (st\<lparr>last_id := Some i\<rparr>)"
proof -
  have "\<forall>x \<in> set (details st @ streak_details st). detail_ID x < i"
    using inv lt unfolding details_inv_def by fastforce
  then show ?thesis
    using inv by (auto simp: details_inv_def dest: less_imp_le)
qed

lemma details_inv_step:
  assumes inv: "details_inv st" and lt: "\<forall>l. last_id st = Some l \<longrightarrow> l < ID r"
    and st: "step df p st r = Inr st'"
  shows "details_inv st' \<and> last_id st' = Some (ID r)"
proof (cases "Winner r = p")
  case True
  show ?thesis
  proof (cases "streak_start_id st = None \<or> \<not> is_sequential (last_id st) (ID r)")
    case new: True
    with True st have "st' = (emit_streak st)\<lparr>current_streak := 1,
        streak_start_id := Some (ID r), streak_details := [row_detail r],
        pending_draw := 0, last_id := Some (ID r)\<rparr>"
      by (auto simp: step_def Let_def)
    then show ?thesis
      using details_inv_open [OF inv lt] by (simp add: row_detail_def details_inv_def)
  next
    case cont: False
    then obtain l where l: "last_id st = Some l" "is_sequential (Some l) (ID r)"
      using True st by (cases "last_id st") (auto simp: step_def Let_def)
    have rng: "continuation_ids l (ID r) = [ID r]"
      by (rule continuation_ids_sequential [OF l(2)])
    from cont True st l obtain ds where ds: "range_details df [ID r] = Inr ds"
      and st': "st' = st\<lparr>current_streak := current_streak st + (1 + pending_draw st),
          streak_details := streak_details st @ ds, pending_draw := 0,
          last_id := Some (ID r)\<rparr>"
      by (auto simp: step_def Let_def rng split: sum.splits simp del: range_details.simps)
    from range_details_ids [OF ds] obtain d where d: "ds = [d]" "detail_ID d = ID r"
      by (cases ds) auto
    show ?thesis
      using details_inv_append [OF inv lt d(2)] by (simp add: st' d(1) details_inv_def)
  qed
next
  case False
  show ?thesis
  proof (cases "Winner r = ''Draw'' \<and> is_sequential (last_id st) (ID r)")
    case draw: True
    show ?thesis
    proof (cases "streak_start_id st = None")
      case True
      with False draw st have "st' = st\<lparr>pending_draw := 0, last_id := Some (ID r)\<rparr>"
        by (auto simp: step_def Let_def)
      then show ?thesis using details_inv_skip [OF inv lt] by (simp add: details_inv_def)
    next
      case opened: False
      with False draw st have "st' = st\<lparr>pending_draw := 1 / 2,
          streak_details := streak_details st @ [row_detail r], last_id := Some (ID r)\<rparr>"
        by (auto simp: step_def Let_def)
      then show ?thesis
        using details_inv_append [OF inv lt, of "row_detail r"]
        by (simp add: row_detail_def details_inv_def)
    qed
  next
    case other: False
    with False st have "st' = (emit_streak st)\<lparr>current_streak := 0,
        streak_start_id := None, streak_details := [], pending_draw := 0,
        last_id := Some (ID r)\<rparr>"
      by (auto simp: step_def Let_def)
    then show ?thesis using details_inv_close [OF inv lt] by (simp add: details_inv_def)
  qed
qed

lemma details_inv_scan_rows:
  assumes "sorted_wrt (<) (map ID rows)" "details_inv st"
    "\<forall>l. last_id st = Some l \<longrightarrow> (\<forall>r \<in> set rows. l < ID r)"
    "scan_rows df p rows st = Inr st'"
  shows "details_inv st'"
  using assms
proof (induction rows arbitrary: st)
  case Nil
  then show ?case by simp
next
  case (Cons r rows)
  from Cons.prems(4) obtain st1 where st1: "step df p st r = Inr st1"
    and rest: "scan_rows df p rows st1 = Inr st'"
    by (auto split: sum.splits)
  have lt: "\<forall>l. last_id st = Some l \<longrightarrow> l < ID r" using Cons.prems(3) by simp
  from details_inv_step [OF Cons.prems(2) lt st1]
  have inv1: "details_inv st1" and last1: "last_id st1 = Some (ID r)" by simp_all
  show ?case
  proof (rule Cons.IH [OF _ inv1 _ rest])
    show "sorted_wrt (<) (map ID rows)" using Cons.prems(1) by simp
    show "\<forall>l. last_id st1 = Some l \<longrightarrow> (\<forall>r \<in> set rows. l < ID r)"
      using Cons.prems(1) by (simp add: last1)
  qed
qed

lemma details_sorted:
  assumes "sorted_wrt (<) (map ID df)" "calculate_streaks_and_details df p = Inr (ss, ds)"
  shows "sorted_wrt (<) (map detail_ID ds)"
proof -
  from assms(2) obtain st where st: "scan_rows df p df initial_state = Inr st"
    and ds: "ds = details (emit_streak st)"
    by (auto simp: calculate_streaks_and_details_def split: sum.splits)
  have "details_inv st"
    by (rule details_inv_scan_rows [OF assms(1) details_inv_initial _ st])
       (simp add: initial_state_def)
  then show ?thesis unfolding ds by (rule details_inv_emit_details(1))
qed

lemma sorted_wrt_concat_blocks:
  assumes "sorted_wrt P (concat bs)"
  shows "\<forall>b \<in> set bs. sorted_wrt P b"
    and "\<forall>us b1 vs b2 ws. bs = us @ b1 # vs @ b2 # ws \<longrightarrow> (\<forall>x \<in> set b1. \<forall>y \<in> set b2. P x y)"
proof -
  show "\<forall>b \<in> set bs. sorted_wrt P b"
    using assms by (induction bs) (auto simp: sorted_wrt_append)
  show "\<forall>us b1 vs b2 ws. bs = us @ b1 # vs @ b2 # ws \<longrightarrow> (\<forall>x \<in> set b1. \<forall>y \<in> set b2. P x y)"
    using assms by (auto simp: sorted_wrt_append)
qed

lemma step_keeps_output_of_short_run:
  assumes "current_streak st \<le> 1" "step df p st r = Inr st'"
  shows "streaks st' = streaks st \<and> details st' = details st"
proof -
  have "emit_streak st = st" using assms(1) by (simp add: emit_streak_def)
  with assms(2) show ?thesis
    by (auto simp: step_def Let_def split: if_splits option.splits sum.splits)
qed

section \<open>Scenarios of the scanner\<close>

text \<open>
  C1 (as the code has it). For the records with ids 1, 2, 3 and outcomes Win, Draw, Win
  the scanner emits exactly one streak, with detail entries for the ids 1, 2 and 3; its
  length is 2.5: 1 for the opening win, then \<open>1 + pending_draw = 1 + 0.5\<close> for the win
  that confirms the draw.
\<close>

theorem scenario_win_draw_win:
  "calculate_streaks_and_details [game 1 ''P'', game 2 ''Draw'', game 3 ''P''] ''P''
     = Inr ([5 / 2], [entry 1, entry 2, entry 3])"
  by (simp add: scan_simps)

text \<open>
  C1 as stated fails: on that input the scanner does not return a single streak of
  length 3, whatever the detail entries.
\<close>

theorem scenario_win_draw_win_not_three:
  "\<not> (\<exists>ds. calculate_streaks_and_details [game 1 ''P'', game 2 ''Draw'', game 3 ''P''] ''P''
           = Inr ([3], ds))"
  by (simp add: scan_simps)

text \<open>
  C3. For the records with ids 1, 2, 3, 4 and outcomes Win, Win, Draw, Loss the scanner
  emits one streak of length 2, the two wins, whose detail entries are those of the ids
  1, 2 and 3: the entry of the trailing draw (id 3) is emitted although its pending 0.5
  was never added. Just before the loss the open streak has length 2, the pending weight
  is 0.5 and the draw's entry is already in the streak's details.
\<close>

theorem trailing_draw_entry_without_weight:
  "calculate_streaks_and_details
      [game 1 ''P'', game 2 ''P'', game 3 ''Draw'', game 4 ''Q''] ''P''
     = Inr ([2], [entry 1, entry 2, entry 3])
   \<and> Winner (game 3 ''Draw'') = ''Draw''
   \<and> (case scan_rows [game 1 ''P'', game 2 ''P'', game 3 ''Draw'', game 4 ''Q''] ''P''
              [game 1 ''P'', game 2 ''P'', game 3 ''Draw''] initial_state of
         Inl e \<Rightarrow> False
       | Inr st \<Rightarrow>
           current_streak st = 2 \<and> pending_draw st = 1 / 2
           \<and> streak_details st = [entry 1, entry 2, entry 3])"
  by (simp add: scan_simps)

text \<open>
  C8. For the records with ids 1, 2, 3 and outcomes Win, Draw, Loss the scanner emits
  nothing. After the win and the draw the open run still has length 1 with a pending
  weight of 0.5; the loss closes it, and a run of length 1 is not emitted.
\<close>

theorem scenario_win_draw_loss:
  "calculate_streaks_and_details [game 1 ''P'', game 2 ''Draw'', game 3 ''Q''] ''P''
     = Inr ([], [])
   \<and> (case scan_rows [game 1 ''P'', game 2 ''Draw'', game 3 ''Q''] ''P''
              [game 1 ''P'', game 2 ''Draw''] initial_state of
         Inl e \<Rightarrow> False
       | Inr st \<Rightarrow>
           current_streak st = 1 \<and> pending_draw st = 1 / 2 \<and> streaks st = [])
   \<and> (case scan_rows [game 1 ''P'', game 2 ''Draw'', game 3 ''Q''] ''P''
              [game 1 ''P'', game 2 ''Draw'', game 3 ''Q''] initial_state of
         Inl e \<Rightarrow> False
       | Inr st \<Rightarrow>
           current_streak st = 0 \<and> pending_draw st = 0 \<and> streaks st = []
           \<and> streak_start_id st = None)"
  by (simp add: scan_simps)

text \<open>
  C9. For the records with ids 1 and 3, both wins, the scanner emits nothing. The win
  at id 1 opens a run of length 1; id 3 is not sequential, so that run is closed
  without being emitted and a new run of length 1 is opened at id 3, which is not
  emitted at the end of the input either.
\<close>

theorem scenario_gap_between_wins:
  "calculate_streaks_and_details [game 1 ''P'', game 3 ''P''] ''P'' = Inr ([], [])
   \<and> (case scan_rows [game 1 ''P'', game 3 ''P''] ''P'' [game 1 ''P''] initial_state of
         Inl e \<Rightarrow> False
       | Inr st \<Rightarrow>
           current_streak st = 1 \<and> streak_start_id st = Some 1 \<and> streaks st = [])
   \<and> is_sequential (Some 1) 3 = False
   \<and> (case scan_rows [game 1 ''P'', game 3 ''P''] ''P'' [game 1 ''P'', game 3 ''P'']
              initial_state of
         Inl e \<Rightarrow> False
       | Inr st \<Rightarrow>
           current_streak st = 1 \<and> streak_start_id st = Some 3 \<and> streaks st = []
           \<and> streak_details st = [entry 3])"
  by (simp add: scan_simps)

section \<open>Properties of every scan\<close>

text \<open>
  C4 (as the code has it). In the win-continuation branch the scanner appends one
  detail entry for every id of \<^verbatim>\<open>range(last_id + 1, current_id + 1)\<close>, each looked up in
  the whole table by id (the first row with that id; IndexError when there is none). For
  a win of the tracked player while a streak is open, the step takes that branch exactly
  when the id of the row is \<open>last_id + 1\<close>, and then the range is the one id of the row;
  otherwise it opens a new streak with the entry of the row. A draw inside a streak
  updates \<open>last_id\<close> like every other row, so no id is skipped: whatever the state and
  the row, a step appends to the details of the open streak at most one entry, and that
  entry carries the id of the row.
\<close>

theorem continuation_range_is_current_id:
  "(\<forall>l. Winner r = p \<and> streak_start_id st \<noteq> None \<and> last_id st = Some l \<longrightarrow>
       step df p st r =
         (if ID r = l + 1 then
            (case range_details df (continuation_ids l (ID r)) of
               Inl e \<Rightarrow> Inl e
             | Inr ds \<Rightarrow>
                 Inr (st\<lparr>current_streak := current_streak st + (1 + pending_draw st),
                         streak_details := streak_details st @ ds,
                         pending_draw := 0, last_id := Some (ID r)\<rparr>))
          else
            Inr ((emit_streak st)
                   \<lparr>current_streak := 1, streak_start_id := Some (ID r),
                    streak_details := [row_detail r], pending_draw := 0,
                    last_id := Some (ID r)\<rparr>))
       \<and> (ID r = l + 1 \<longrightarrow> continuation_ids l (ID r) = [ID r]))
   \<and> (\<forall>st' ds. step df p st r = Inr st' \<and> streak_details st' = streak_details st @ ds \<longrightarrow>
          (\<forall>d \<in> set ds. detail_ID d = ID r) \<and> length ds \<le> 1)
   \<and> (case range_details df [ID r] of
         Inl e \<Rightarrow> e = IndexError \<and> filter (\<lambda>x. ID x = ID r) df = []
       | Inr ds \<Rightarrow>
           (\<exists>x rest. filter (\<lambda>x. ID x = ID r) df = x # rest
              \<and> ds = [\<lparr>detail_ID = ID r, detail_Opponent_ELO = Opponent_ELO x,
                        detail_ELO_Difference = ELO_Difference_In_Terms_of_Player x\<rparr>]))"
proof (intro conjI allI impI)
  fix l assume h: "Winner r = p \<and> streak_start_id st \<noteq> None \<and> last_id st = Some l"
  then show "step df p st r =
         (if ID r = l + 1 then
            (case range_details df (continuation_ids l (ID r)) of
               Inl e \<Rightarrow> Inl e
             | Inr ds \<Rightarrow>
                 Inr (st\<lparr>current_streak := current_streak st + (1 + pending_draw st),
                         streak_details := streak_details st @ ds,
                         pending_draw := 0, last_id := Some (ID r)\<rparr>))
          else
            Inr ((emit_streak st)
                   \<lparr>current_streak := 1, streak_start_id := Some (ID r),
                    streak_details := [row_detail r], pending_draw := 0,
                    last_id := Some (ID r)\<rparr>))"
    by (intro step_win_open) simp_all
next
  fix l assume "ID r = l + 1"
  then show "continuation_ids l (ID r) = [ID r]"
    by (simp add: continuation_ids_def)
next
  fix st' ds
  assume h: "step df p st r = Inr st' \<and> streak_details st' = streak_details st @ ds"
  have "(\<forall>d \<in> set ds. detail_ID d = ID r) \<and> length ds \<le> 1"
    by (rule step_appends_current_id [OF conjunct1 [OF h] conjunct2 [OF h]])
  then show "\<forall>d \<in> set ds. detail_ID d = ID r" "length ds \<le> 1" by simp_all
next
  show "case range_details df [ID r] of
         Inl e \<Rightarrow> e = IndexError \<and> filter (\<lambda>x. ID x = ID r) df = []
       | Inr ds \<Rightarrow>
           (\<exists>x rest. filter (\<lambda>x. ID x = ID r) df = x # rest
              \<and> ds = [\<lparr>detail_ID = ID r, detail_Opponent_ELO = Opponent_ELO x,
                        detail_ELO_Difference = ELO_Difference_In_Terms_of_Player x\<rparr>])"
    by (rule range_details_single)
qed

text \<open>
  After a win at id 1 and a draw at id 2, the win at id 3 continues the streak and is
  looked up alone; a win at id 4 instead opens a new streak.
\<close>

theorem continuation_range_is_current_id_witness:
  "Winner (game 3 ''P'') = ''P''
   \<and> streak_start_id (initial_state\<lparr>current_streak := 1, streak_start_id := Some 1,
        streak_details := [entry 1, entry 2], last_id := Some 2,
        pending_draw := 1 / 2\<rparr>) \<noteq> None
   \<and> ID (game 3 ''P'') = 2 + 1
   \<and> continuation_ids 2 (ID (game 3 ''P'')) = [3]
   \<and> step [game 1 ''P'', game 2 ''Draw'', game 3 ''P''] ''P''
        (initial_state\<lparr>current_streak := 1, streak_start_id := Some 1,
           streak_details := [entry 1, entry 2], last_id := Some 2,
           pending_draw := 1 / 2\<rparr>) (game 3 ''P'')
       = Inr (initial_state\<lparr>current_streak := 5 / 2, streak_start_id := Some 1,
           streak_details := [entry 1, entry 2, entry 3], last_id := Some 3,
           pending_draw := 0\<rparr>)
   \<and> ID (game 4 ''P'') \<noteq> 2 + 1
   \<and> step [game 1 ''P'', game 2 ''Draw'', game 4 ''P''] ''P''
        (initial_state\<lparr>current_streak := 1, streak_start_id := Some 1,
           streak_details := [entry 1, entry 2], last_id := Some 2,
           pending_draw := 1 / 2\<rparr>) (game 4 ''P'')
       = Inr (initial_state\<lparr>current_streak := 1, streak_start_id := Some 4,
           streak_details := [entry 4], last_id := Some 4, pending_draw := 0\<rparr>)"
proof -
  let ?st = "initial_state\<lparr>current_streak := 1, streak_start_id := Some 1,
        streak_details := [entry 1, entry 2], last_id := Some 2, pending_draw := 1 / 2\<rparr>"
  let ?df = "[game 1 ''P'', game 2 ''Draw'', game 3 ''P'']"
  let ?dg = "[game 1 ''P'', game 2 ''Draw'', game 4 ''P'']"
  have h1: "Winner (game 3 ''P'') = ''P''" by (simp add: game_def)
  have h2: "streak_start_id ?st \<noteq> None" by simp
  have h3: "last_id ?st = Some 2" by simp
  have h4: "ID (game 3 ''P'') = 2 + 1" by (simp add: game_def)
  have g1: "Winner (game 4 ''P'') = ''P''" by (simp add: game_def)
  have g4: "ID (game 4 ''P'') \<noteq> 2 + 1" by (simp add: game_def)
  from continuation_range_is_current_id [of "game 3 ''P''" "''P''" ?st ?df] h1 h2 h3 h4
  have a: "step ?df ''P'' ?st (game 3 ''P'') =
      (case range_details ?df (continuation_ids 2 (ID (game 3 ''P''))) of
         Inl e \<Rightarrow> Inl e
       | Inr ds \<Rightarrow>
           Inr (?st\<lparr>current_streak := current_streak ?st + (1 + pending_draw ?st),
                   streak_details := streak_details ?st @ ds,
                   pending_draw := 0, last_id := Some (ID (game 3 ''P''))\<rparr>))"
    and rng: "continuation_ids 2 (ID (game 3 ''P'')) = [ID (game 3 ''P'')]"
    by simp_all
  have look: "range_details ?df [ID (game 3 ''P'')] = Inr [entry 3]"
    by (simp add: loc_values0_def game_def entry_def)
  have stp: "step ?df ''P'' ?st (game 3 ''P'')
       = Inr (initial_state\<lparr>current_streak := 5 / 2, streak_start_id := Some 1,
           streak_details := [entry 1, entry 2, entry 3], last_id := Some 3,
           pending_draw := 0\<rparr>)"
    unfolding a rng look by (simp add: initial_state_def game_def)
  have rng3: "continuation_ids 2 (ID (game 3 ''P'')) = [3]"
    using rng by (simp add: game_def)
  from continuation_range_is_current_id [of "game 4 ''P''" "''P''" ?st ?dg] g1 h2 h3 g4
  have "step ?dg ''P'' ?st (game 4 ''P'') =
      Inr ((emit_streak ?st)
             \<lparr>current_streak := 1, streak_start_id := Some (ID (game 4 ''P'')),
              streak_details := [row_detail (game 4 ''P'')], pending_draw := 0,
              last_id := Some (ID (game 4 ''P''))\<rparr>)"
    by simp
  then have gap: "step ?dg ''P'' ?st (game 4 ''P'')
       = Inr (initial_state\<lparr>current_streak := 1, streak_start_id := Some 4,
           streak_details := [entry 4], last_id := Some 4, pending_draw := 0\<rparr>)"
    by (simp add: initial_state_def game_def entry_def row_detail_def emit_streak_def)
  from h1 h2 h4 rng3 stp g4 gap show ?thesis by (simp only: simp_thms)
qed

text \<open>
  C4 as stated fails: there is no table, state and row for which a step appends to the
  open streak an entry with an id other than that of the row.
\<close>

theorem continuation_range_never_skips:
  "\<not> (\<exists>df p (st :: scan_state) (r :: row) st' ds.
         step df p st r = Inr st' \<and> streak_details st' = streak_details st @ ds
         \<and> (\<exists>d \<in> set ds. detail_ID d \<noteq> ID r))"
  using step_appends_current_id by blast

text \<open>
  C5. No emitted streak has length 1 or less: every length the scanner returns is
  greater than 1. A run whose length is at most 1 is dropped without a trace: the
  emission block leaves such a state as it is, at the end of the input as inside the
  loop, and no step taken from it changes the emitted lengths or details.
\<close>

theorem no_short_streak_emitted:
  "(\<forall>ss ds. calculate_streaks_and_details df p = Inr (ss, ds) \<longrightarrow> (\<forall>x \<in> set ss. 1 < x))
   \<and> (\<forall>st. current_streak st \<le> 1 \<longrightarrow>
          emit_streak st = st
          \<and> (\<forall>r st'. step df p st r = Inr st' \<longrightarrow>
                streaks st' = streaks st \<and> details st' = details st))"
proof (intro conjI allI impI)
  fix ss ds assume "calculate_streaks_and_details df p = Inr (ss, ds)"
  from emitted_lengths_of_scan [OF this] show "\<forall>x \<in> set ss. 1 < x"
    by (blast intro: emitted_length_gt1)
next
  fix st :: scan_state assume "current_streak st \<le> 1"
  then show "emit_streak st = st" by (simp add: emit_streak_def)
next
  fix st :: scan_state and r st'
  assume "current_streak st \<le> 1" "step df p st r = Inr st'"
  then show "streaks st' = streaks st" "details st' = details st"
    using step_keeps_output_of_short_run by blast+
qed

text \<open>
  Three wins give one streak of length 3; a run of length 1 broken by a gap is dropped.
\<close>

theorem no_short_streak_emitted_witness:
  "calculate_streaks_and_details [game 1 ''P'', game 2 ''P'', game 3 ''P''] ''P''
     = Inr ([3], [entry 1, entry 2, entry 3])
   \<and> (1 :: rat) < 3
   \<and> current_streak (initial_state\<lparr>current_streak := 1, streak_start_id := Some 1,
        streak_details := [entry 1], last_id := Some 1\<rparr>) \<le> 1
   \<and> step [game 1 ''P'', game 3 ''P''] ''P''
        (initial_state\<lparr>current_streak := 1, streak_start_id := Some 1,
           streak_details := [entry 1], last_id := Some 1\<rparr>) (game 3 ''P'')
       = Inr (initial_state\<lparr>current_streak := 1, streak_start_id := Some 3,
           streak_details := [entry 3], last_id := Some 3\<rparr>)
   \<and> streaks (initial_state\<lparr>current_streak := 1, streak_start_id := Some 3,
           streak_details := [entry 3], last_id := Some 3\<rparr>) = []"
proof -
  have run: "calculate_streaks_and_details [game 1 ''P'', game 2 ''P'', game 3 ''P''] ''P''
     = Inr ([3], [entry 1, entry 2, entry 3])"
    by (simp add: scan_simps)
  have gt: "(1 :: rat) < 3"
    using no_short_streak_emitted [of "[game 1 ''P'', game 2 ''P'', game 3 ''P'']" "''P''"]
      run by simp
  show ?thesis
    using run gt by (simp add: scan_simps)
qed

text \<open>
  C6 (as the code has it). When the rows are sorted ascending by id and no id is
  repeated, the ids of the returned detail table increase strictly. The table is the
  concatenation, in emission order, of the entries of the emitted streaks; so however it
  is cut into consecutive blocks, and in particular at the boundaries of the streaks, the
  ids inside each block increase strictly and every id of an earlier block is less than
  every id of a later one.
\<close>

theorem detail_ids_increasing_and_disjoint:
  assumes "sorted_wrt (<) (map ID df)"
    and "calculate_streaks_and_details df p = Inr (ss, ds)"
  shows "sorted_wrt (<) (map detail_ID ds)
     \<and> (\<forall>bs. ds = concat bs \<longrightarrow>
           (\<forall>b \<in> set bs. sorted_wrt (<) (map detail_ID b))
           \<and> (\<forall>us b1 vs b2 ws. bs = us @ b1 # vs @ b2 # ws \<longrightarrow>
                 (\<forall>x \<in> set b1. \<forall>y \<in> set b2. detail_ID x < detail_ID y)))"
proof (intro conjI allI impI)
  show flat: "sorted_wrt (<) (map detail_ID ds)"
    by (rule details_sorted [OF assms])
  fix bs assume bs: "ds = concat bs"
  from flat have c: "sorted_wrt (\<lambda>x y. detail_ID x < detail_ID y) (concat bs)"
    by (simp add: bs sorted_wrt_map)
  from sorted_wrt_concat_blocks(1) [OF c]
  show "\<forall>b \<in> set bs. sorted_wrt (<) (map detail_ID b)"
    by (simp add: sorted_wrt_map)
  fix us b1 vs b2 ws assume "bs = us @ b1 # vs @ b2 # ws"
  with sorted_wrt_concat_blocks(2) [OF c]
  show "\<forall>x \<in> set b1. \<forall>y \<in> set b2. detail_ID x < detail_ID y"
    by blast
qed

text \<open>
  Two streaks, over the ids 1, 2 and 4, 5, 6.
\<close>

theorem detail_ids_increasing_and_disjoint_witness:
  "sorted_wrt (<)
     (map ID [game 1 ''P'', game 2 ''P'', game 3 ''Q'', game 4 ''P'', game 5 ''Draw'',
              game 6 ''P''])
   \<and> calculate_streaks_and_details
        [game 1 ''P'', game 2 ''P'', game 3 ''Q'', game 4 ''P'', game 5 ''Draw'',
         game 6 ''P''] ''P''
       = Inr ([2, 5 / 2], [entry 1, entry 2, entry 4, entry 5, entry 6])
   \<and> sorted_wrt (<) (map detail_ID [entry 1, entry 2, entry 4, entry 5, entry 6])
   \<and> sorted_wrt (<) (map detail_ID [entry 1, entry 2])
   \<and> sorted_wrt (<) (map detail_ID [entry 4, entry 5, entry 6])
   \<and> detail_ID (entry 2) < detail_ID (entry 4)"
proof -
  let ?df = "[game 1 ''P'', game 2 ''P'', game 3 ''Q'', game 4 ''P'', game 5 ''Draw'',
              game 6 ''P'']"
  let ?ds = "[entry 1, entry 2, entry 4, entry 5, entry 6]"
  have h1: "sorted_wrt (<) (map ID ?df)" by (simp add: game_def)
  have h2: "calculate_streaks_and_details ?df ''P'' = Inr ([2, 5 / 2], ?ds)"
    by (simp add: scan_simps)
  note t = detail_ids_increasing_and_disjoint [OF h1 h2]
  have seg: "?ds = concat [[entry 1, entry 2], [entry 4, entry 5, entry 6]]" by simp
  from t have flat: "sorted_wrt (<) (map detail_ID ?ds)" by (rule conjunct1)
  from t seg have blocks:
    "(\<forall>b \<in> set [[entry 1, entry 2], [entry 4, entry 5, entry 6]].
        sorted_wrt (<) (map detail_ID b))
     \<and> (\<forall>us b1 vs b2 ws.
          [[entry 1, entry 2], [entry 4, entry 5, entry 6]] = us @ b1 # vs @ b2 # ws \<longrightarrow>
          (\<forall>x \<in> set b1. \<forall>y \<in> set b2. detail_ID x < detail_ID y))"
    by blast
  from blocks have b1: "sorted_wrt (<) (map detail_ID [entry 1, entry 2])"
    and b2: "sorted_wrt (<) (map detail_ID [entry 4, entry 5, entry 6])" by simp_all
  have "[[entry 1, entry 2], [entry 4, entry 5, entry 6]]
          = [] @ [entry 1, entry 2] # [] @ [entry 4, entry 5, entry 6] # []" by simp
  with blocks have "\<forall>x \<in> set [entry 1, entry 2]. \<forall>y \<in> set [entry 4, entry 5, entry 6].
      detail_ID x < detail_ID y" by blast
  then have cross: "detail_ID (entry 2) < detail_ID (entry 4)" by simp
  from h1 h2 flat b1 b2 cross show ?thesis by (simp only: simp_thms)
qed

text \<open>
  C6 as stated fails: sorted ascending is not enough. On the ids 1, 2, 2, 3, all wins,
  the second row with id 2 is not sequential, so the streak over the ids 1 and 2 is
  emitted and a new one is opened at id 2, which the win at id 3 continues: two emitted
  streaks of length 2 that share the id 2.
\<close>

theorem repeated_id_streaks_overlap:
  "sorted (map ID [game 1 ''P'', game 2 ''P'', game 2 ''P'', game 3 ''P''])
   \<and> calculate_streaks_and_details
        [game 1 ''P'', game 2 ''P'', game 2 ''P'', game 3 ''P''] ''P''
       = Inr ([2, 2], [entry 1, entry 2, entry 2, entry 3])
   \<and> (case scan_rows [game 1 ''P'', game 2 ''P'', game 2 ''P'', game 3 ''P''] ''P''
              [game 1 ''P'', game 2 ''P''] initial_state of
         Inl e \<Rightarrow> False
       | Inr st \<Rightarrow>
           streaks st = [] \<and> details st = [] \<and> current_streak st = 2
           \<and> streak_details st = [entry 1, entry 2])
   \<and> (case scan_rows [game 1 ''P'', game 2 ''P'', game 2 ''P'', game 3 ''P''] ''P''
              [game 1 ''P'', game 2 ''P'', game 2 ''P''] initial_state of
         Inl e \<Rightarrow> False
       | Inr st \<Rightarrow>
           streaks st = [2] \<and> details st = [entry 1, entry 2] \<and> current_streak st = 1
           \<and> streak_details st = [entry 2])
   \<and> (case scan_rows [game 1 ''P'', game 2 ''P'', game 2 ''P'', game 3 ''P''] ''P''
              [game 1 ''P'', game 2 ''P'', game 2 ''P'', game 3 ''P''] initial_state of
         Inl e \<Rightarrow> False
       | Inr st \<Rightarrow>
           streaks st = [2] \<and> details st = [entry 1, entry 2] \<and> current_streak st = 2
           \<and> streak_details st = [entry 2, entry 3])
   \<and> \<not> sorted_wrt (<) (map detail_ID [entry 1, entry 2, entry 2, entry 3])
   \<and> \<not> detail_ID (last [entry 1, entry 2]) < detail_ID (hd [entry 2, entry 3])"
  by (simp add: scan_simps)

text \<open>
  C10. In every state a scan reaches, the pending draw weight is 0 or 0.5. It is
  overwritten, not accumulated: from a state with an open streak, any number \<open>k \<ge> 1\<close> of
  sequential draws leaves the length unchanged with a pending weight of 0.5, and the
  sequential win after them raises the length by exactly \<open>1 + 0.5\<close>.
\<close>

theorem pending_draw_overwritten:
  "(\<forall>rows st. scan_rows df p rows initial_state = Inr st \<longrightarrow>
       pending_draw st = 0 \<or> pending_draw st = 1 / 2)
   \<and> (\<forall>st l draws w.
         streak_start_id st \<noteq> None \<and> last_id st = Some l \<and> p \<noteq> ''Draw''
         \<and> draws \<noteq> [] \<and> map Winner draws = replicate (length draws) ''Draw''
         \<and> map ID draws = [l + 1 .. l + int (length draws)]
         \<and> Winner w = p \<and> ID w = l + int (length draws) + 1 \<and> w \<in> set df \<longrightarrow>
         (\<exists>st1 st2. scan_rows df p draws st = Inr st1
            \<and> current_streak st1 = current_streak st \<and> pending_draw st1 = 1 / 2
            \<and> scan_rows df p (draws @ [w]) st = Inr st2
            \<and> current_streak st2 = current_streak st + (1 + 1 / 2)
            \<and> pending_draw st2 = 0))"
proof (intro conjI allI impI)
  fix rows st assume "scan_rows df p rows initial_state = Inr st"
  from length_inv_scan_rows [OF length_inv_initial this]
  show "pending_draw st = 0 \<or> pending_draw st = 1 / 2"
    by (simp add: length_inv_def)
next
  fix st :: scan_state and l and draws :: "row list" and w :: row
  assume h: "streak_start_id st \<noteq> None \<and> last_id st = Some l \<and> p \<noteq> ''Draw''
         \<and> draws \<noteq> [] \<and> map Winner draws = replicate (length draws) ''Draw''
         \<and> map ID draws = [l + 1 .. l + int (length draws)]
         \<and> Winner w = p \<and> ID w = l + int (length draws) + 1 \<and> w \<in> set df"
  show "\<exists>st1 st2. scan_rows df p draws st = Inr st1
            \<and> current_streak st1 = current_streak st \<and> pending_draw st1 = 1 / 2
            \<and> scan_rows df p (draws @ [w]) st = Inr st2
            \<and> current_streak st2 = current_streak st + (1 + 1 / 2)
            \<and> pending_draw st2 = 0"
    by (rule draws_then_win) (use h in simp_all)
qed

text \<open>
  A win, three draws and a win: the streak has length 2.5.
\<close>

theorem pending_draw_overwritten_witness:
  "scan_rows [game 1 ''P'', game 2 ''Draw'', game 3 ''Draw'', game 4 ''Draw'', game 5 ''P'']
      ''P'' [game 1 ''P''] initial_state
     = Inr (initial_state\<lparr>current_streak := 1, streak_start_id := Some 1,
              streak_details := [entry 1], last_id := Some 1\<rparr>)
   \<and> map Winner [game 2 ''Draw'', game 3 ''Draw'', game 4 ''Draw'']
       = replicate 3 ''Draw''
   \<and> map ID [game 2 ''Draw'', game 3 ''Draw'', game 4 ''Draw''] = [1 + 1 .. 1 + 3]
   \<and> (\<exists>st2. scan_rows
         [game 1 ''P'', game 2 ''Draw'', game 3 ''Draw'', game 4 ''Draw'', game 5 ''P'']
         ''P'' ([game 2 ''Draw'', game 3 ''Draw'', game 4 ''Draw''] @ [game 5 ''P''])
         (initial_state\<lparr>current_streak := 1, streak_start_id := Some 1,
              streak_details := [entry 1], last_id := Some 1\<rparr>) = Inr st2
       \<and> current_streak st2 = 1 + (1 + 1 / 2) \<and> pending_draw st2 = 0)
   \<and> calculate_streaks_and_details
        [game 1 ''P'', game 2 ''Draw'', game 3 ''Draw'', game 4 ''Draw'', game 5 ''P'']
        ''P''
       = Inr ([5 / 2], [entry 1, entry 2, entry 3, entry 4, entry 5])"
proof -
  let ?df = "[game 1 ''P'', game 2 ''Draw'', game 3 ''Draw'', game 4 ''Draw'', game 5 ''P'']"
  let ?st = "initial_state\<lparr>current_streak := 1, streak_start_id := Some 1,
              streak_details := [entry 1], last_id := Some 1\<rparr>"
  let ?draws = "[game 2 ''Draw'', game 3 ''Draw'', game 4 ''Draw'']"
  have a: "scan_rows ?df ''P'' [game 1 ''P''] initial_state = Inr ?st"
    by (simp add: scan_simps)
  have b: "map Winner ?draws = replicate 3 ''Draw''"
    by (simp add: game_def numeral_3_eq_3)
  have c: "map ID ?draws = [1 + 1 .. 1 + 3]" by (simp add: game_def upto.simps)
  have hyp: "streak_start_id ?st \<noteq> None \<and> last_id ?st = Some 1 \<and> ''P'' \<noteq> ''Draw''
         \<and> ?draws \<noteq> [] \<and> map Winner ?draws = replicate (length ?draws) ''Draw''
         \<and> map ID ?draws = [1 + 1 .. 1 + int (length ?draws)]
         \<and> Winner (game 5 ''P'') = ''P'' \<and> ID (game 5 ''P'') = 1 + int (length ?draws) + 1
         \<and> game 5 ''P'' \<in> set ?df"
    using b c by (simp add: initial_state_def game_def)
  from pending_draw_overwritten [of ?df "''P''"] hyp
  have "\<exists>st1 st2. scan_rows ?df ''P'' ?draws ?st = Inr st1
            \<and> current_streak st1 = current_streak ?st \<and> pending_draw st1 = 1 / 2
            \<and> scan_rows ?df ''P'' (?draws @ [game 5 ''P'']) ?st = Inr st2
            \<and> current_streak st2 = current_streak ?st + (1 + 1 / 2)
            \<and> pending_draw st2 = 0"
    by blast
  then have d: "\<exists>st2. scan_rows ?df ''P'' (?draws @ [game 5 ''P'']) ?st = Inr st2
       \<and> current_streak st2 = 1 + (1 + 1 / 2) \<and> pending_draw st2 = 0"
    by (auto simp: initial_state_def)
  have e: "calculate_streaks_and_details ?df ''P''
       = Inr ([5 / 2], [entry 1, entry 2, entry 3, entry 4, entry 5])"
    by (simp add: scan_simps)
  from a b c d e show ?thesis by (simp only: simp_thms)
qed

section \<open>Properties of the aggregator\<close>

text \<open>
  C2 (as the code has it). The aggregator has no check for an empty column. On the
  empty column the maximum is undefined, the undefined value is the bound handed to the
  grid construction, and the aggregator fails with the ValueError raised there, whatever
  the start and the step of the grid; no table, empty or not, is produced.
\<close>

theorem empty_input_fails_in_grid_construction:
  "create_combined_frequencies_dataframe [] = Inl ValueError
   \<and> (\<forall>tbl. create_combined_frequencies_dataframe [] \<noteq> Inr tbl)
   \<and> (\<forall>start stp. arange start (nan_add (series_max []) (1 / 2)) stp = Inl ValueError)"
  by (simp add: create_combined_frequencies_dataframe_def series_max_def nan_add_def
      arange_def)

text \<open>
  C2 as stated fails: on the empty column the maximum is undefined, the undefined value
  is what the grid construction receives, and the error returned is the one raised
  there, not one of an emptiness check.
\<close>

theorem empty_input_nan_reaches_arange:
  "series_max [] = None \<and> nan_add (series_max []) (1 / 2) = None
   \<and> create_combined_frequencies_dataframe []
        = (case arange 2 None (1 / 2) of
             Inl e \<Rightarrow> Inl e
           | Inr xi_values \<Rightarrow>
               Inr (zip xi_values
                      (map (\<lambda>xi. length (filter (\<lambda>s. s = xi) [])) xi_values)))
   \<and> arange 2 None (1 / 2) = Inl ValueError
   \<and> create_combined_frequencies_dataframe [] = Inl ValueError"
  by (simp add: create_combined_frequencies_dataframe_def series_max_def nan_add_def
      arange_def)

text \<open>
  C7. For every non-empty list of lengths emitted by the scanner, in any order and
  with any repetitions, the aggregator returns a table whose first column is the grid
  \<open>2, 2.5, 3, ...\<close> in steps of one half, ending exactly at the largest length, and
  whose second column holds for each grid value the number of lengths equal to it, zero
  included.
\<close>

theorem frequency_table_dense_grid:
  assumes "calculate_streaks_and_details df p = Inr (ss, ds)"
    and "xs \<noteq> []" and "set xs \<subseteq> set ss"
  shows "\<exists>n tbl. create_combined_frequencies_dataframe xs = Inr tbl \<and> 1 \<le> n
           \<and> map fst tbl = map (\<lambda>i. 2 + rat_of_nat i / 2) [0 ..< n]
           \<and> 2 + rat_of_nat (n - 1) / 2 = Max (set xs)
           \<and> map snd tbl = map (count_list xs) (map fst tbl)"
proof (rule frequencies_of_emitted_lengths [OF assms(2)])
  show "\<forall>x \<in> set xs. emitted_length x"
    using emitted_lengths_of_scan [OF assms(1)] assms(3) by blast
qed

text \<open>
  Streaks of lengths 3, 2.5 and 3: the value 2 is kept with count 0.
\<close>

theorem frequency_table_dense_grid_witness:
  "calculate_streaks_and_details
      [game 1 ''P'', game 2 ''P'', game 3 ''P'', game 4 ''Q'', game 5 ''P'',
       game 6 ''Draw'', game 7 ''P'', game 8 ''Q'', game 9 ''P'', game 10 ''P'',
       game 11 ''P''] ''P''
     = Inr ([3, 5 / 2, 3],
            [entry 1, entry 2, entry 3, entry 5, entry 6, entry 7, entry 9, entry 10,
             entry 11])
   \<and> [3, 5 / 2, 3 :: rat] \<noteq> []
   \<and> set [3, 5 / 2, 3 :: rat] \<subseteq> set [3, 5 / 2, 3]
   \<and> create_combined_frequencies_dataframe [3, 5 / 2, 3]
       = Inr [(2, 0), (5 / 2, 1), (3, 2)]
   \<and> (\<exists>n tbl. create_combined_frequencies_dataframe [3, 5 / 2, 3] = Inr tbl \<and> 1 \<le> n
           \<and> map fst tbl = map (\<lambda>i. 2 + rat_of_nat i / 2) [0 ..< n]
           \<and> 2 + rat_of_nat (n - 1) / 2 = Max (set [3, 5 / 2, 3])
           \<and> map snd tbl = map (count_list [3, 5 / 2, 3]) (map fst tbl))"
proof -
  let ?df = "[game 1 ''P'', game 2 ''P'', game 3 ''P'', game 4 ''Q'', game 5 ''P'',
       game 6 ''Draw'', game 7 ''P'', game 8 ''Q'', game 9 ''P'', game 10 ''P'',
       game 11 ''P'']"
  let ?ds = "[entry 1, entry 2, entry 3, entry 5, entry 6, entry 7, entry 9, entry 10,
             entry 11]"
  have h1: "calculate_streaks_and_details ?df ''P'' = Inr ([3, 5 / 2, 3], ?ds)"
    by (simp add: scan_simps)
  have h2: "[3, 5 / 2, 3 :: rat] \<noteq> []" by simp
  have h3: "set [3, 5 / 2, 3 :: rat] \<subseteq> set [3, 5 / 2, 3]" by simp
  have tbl: "create_combined_frequencies_dataframe [3, 5 / 2, 3]
       = Inr [(2, 0), (5 / 2, 1), (3, 2)]"
    by (simp add: create_combined_frequencies_dataframe_def series_max_def nan_add_def
        arange_def upt_rec)
  from h1 h2 h3 tbl frequency_table_dense_grid [OF h1 h2 h3]
  show ?thesis by (simp only: simp_thms)
qed

end
